theory Spec2Isabelle
  imports Main
begin

section \<open>PDF Studio Pro: the core page operations\<close>

text \<open>
  The development embeds the four core functions of \<^verbatim>\<open>pdf_studio_pro_streamlit.py\<close>:
  \<^verbatim>\<open>merge_pdfs\<close>, \<^verbatim>\<open>_parse_segments\<close>, \<^verbatim>\<open>split_pdf\<close> and \<^verbatim>\<open>extract_pages\<close>, and the
  guard of the extract button that stands in front of \<^verbatim>\<open>extract_pages\<close>.

  A Python \<^verbatim>\<open>str\<close> is a \<open>string\<close>; a \<open>char\<close> is read as the code point of a character
  below U+0100, so the character classes of the runtime (\<^verbatim>\<open>str.isdigit\<close>, \<^verbatim>\<open>str.strip\<close>)
  are written out for all 256 values. Python integers are \<open>int\<close>. A page is a value of an
  arbitrary type \<open>'p\<close>; a decoded document is the list of its pages (\<^verbatim>\<open>reader.pages\<close>), and
  a written document (\<^verbatim>\<open>PdfWriter\<close> followed by \<^verbatim>\<open>write\<close>) is the list of the pages added
  to the writer, in the order of the \<^verbatim>\<open>add_page\<close> calls.
\<close>

subsection \<open>Errors\<close>

text \<open>
  The source raises \<^verbatim>\<open>ValueError\<close> with one message per cause; each message is a
  constructor carrying the values the message embeds. \<open>IntLiteral\<close> is the
  \<^verbatim>\<open>ValueError\<close> of \<^verbatim>\<open>int()\<close> itself, \<open>PdfReadError\<close> the failure of \<^verbatim>\<open>PdfReader\<close> on an
  undecodable upload, \<open>IndexError\<close> the failure of \<^verbatim>\<open>reader.pages[p]\<close> out of range, and
  \<open>NoPageNumberEntered\<close> the message of the extract button's guard.
\<close>

datatype error =
    NoRangesProvided
  | InvalidRange string
  | InvalidPageNumber string
  | InvalidSegment string
  | ExceedsTotalPages string int
  | PageOutOfBounds int int
  | IntLiteral string
  | PdfReadError
  | IndexError
  | NoPageNumberEntered

subsection \<open>String primitives of the runtime\<close>

definition is_decimal :: "char \<Rightarrow> bool" where
  "is_decimal c = (c \<in> set ''0123456789'')"

text \<open>
  \<^verbatim>\<open>str.isdigit\<close> accepts, below U+0100, the ten decimal digits and the superscripts
  U+00B2, U+00B3 and U+00B9; it is false on the empty string.
\<close>

definition isdigit_char :: "char \<Rightarrow> bool" where
  "isdigit_char c = (is_decimal c \<or> c \<in> set [CHR 0xB2, CHR 0xB3, CHR 0xB9])"

definition isdigit :: "string \<Rightarrow> bool" where
  "isdigit s = (s \<noteq> [] \<and> list_all isdigit_char s)"

definition digit_val :: "char \<Rightarrow> int" where
  "digit_val c = int (of_char c) - 48"

definition dec_value :: "string \<Rightarrow> int" where
  "dec_value s = foldl (\<lambda>n c. 10 * n + digit_val c) 0 s"

text \<open>
  \<^verbatim>\<open>int(s)\<close>, on the strings the source applies it to (those that passed
  \<^verbatim>\<open>isdigit\<close>): the value of the decimal digits, and a \<^verbatim>\<open>ValueError\<close> when a character
  is not a decimal digit (a superscript). The value is unbounded; the interpreter's
  configurable cap on the number of digits of a literal is not modelled.
\<close>

definition py_int :: "string \<Rightarrow> error + int" where
  "py_int s = (if s \<noteq> [] \<and> list_all is_decimal s then Inr (dec_value s) else Inl (IntLiteral s))"

text \<open>The characters \<^verbatim>\<open>str.strip()\<close> removes, below U+0100.\<close>

definition is_space :: "char \<Rightarrow> bool" where
  "is_space c = (c \<in> set [CHR 0x09, CHR 0x0A, CHR 0x0B, CHR 0x0C, CHR 0x0D,
                           CHR 0x1C, CHR 0x1D, CHR 0x1E, CHR 0x1F, CHR 0x20,
                           CHR 0x85, CHR 0xA0])"

definition strip :: "string \<Rightarrow> string" where
  "strip s = rev (dropWhile is_space (rev (dropWhile is_space s)))"

text \<open>\<^verbatim>\<open>s.replace(" ", "")\<close>: only the space U+0020 is removed.\<close>

definition remove_spaces :: "string \<Rightarrow> string" where
  "remove_spaces s = filter (\<lambda>c. c \<noteq> CHR '' '') s"

text \<open>\<^verbatim>\<open>s.split(sep)\<close> for a one-character separator: never the empty list.\<close>

fun split :: "char \<Rightarrow> string \<Rightarrow> string list" where
  "split sep [] = [[]]"
| "split sep (c # cs) =
     (if c = sep then [] # split sep cs
      else (case split sep cs of
              [] \<Rightarrow> [[c]]
            | w # ws \<Rightarrow> (c # w) # ws))"

text \<open>\<^verbatim>\<open>a, b = t.split("-", 1)\<close>, executed only when \<^verbatim>\<open>"-" in t\<close>.\<close>

definition split_first :: "char \<Rightarrow> string \<Rightarrow> string \<times> string" where
  "split_first sep t = (takeWhile (\<lambda>c. c \<noteq> sep) t, drop 1 (dropWhile (\<lambda>c. c \<noteq> sep) t))"

text \<open>\<^verbatim>\<open>name.rsplit('.', 1)[0] if '.' in name else name\<close>.\<close>

definition base_name :: "string \<Rightarrow> string" where
  "base_name original_filename =
     (if CHR ''.'' \<in> set original_filename
      then rev (drop 1 (dropWhile (\<lambda>c. c \<noteq> CHR ''.'') (rev original_filename)))
      else original_filename)"

text \<open>The decimal rendering of an integer in an f-string.\<close>

definition digit_char :: "nat \<Rightarrow> char" where
  "digit_char d = ''0123456789'' ! d"

fun str_nat :: "nat \<Rightarrow> string" where
  "str_nat n = (if n < 10 then [digit_char n]
                else str_nat (n div 10) @ [digit_char (n mod 10)])"

declare str_nat.simps [simp del]

definition str_int :: "int \<Rightarrow> string" where
  "str_int i = (if i < 0 then CHR ''-'' # str_nat (nat (- i)) else str_nat (nat i))"

subsection \<open>The codec: reading a document and one of its pages\<close>

text \<open>
  An upload is \<open>None\<close> when \<^verbatim>\<open>PdfReader\<close> cannot decode it and \<open>Some pages\<close> otherwise.
  \<^verbatim>\<open>reader.pages[i]\<close> counts a negative index from the end and raises \<^verbatim>\<open>IndexError\<close>
  out of range.
\<close>

type_synonym 'p upload = "'p list option"

definition PdfReader :: "'p upload \<Rightarrow> error + 'p list" where
  "PdfReader f = (case f of None \<Rightarrow> Inl PdfReadError | Some pages \<Rightarrow> Inr pages)"

definition get_page :: "'p list \<Rightarrow> int \<Rightarrow> error + 'p" where
  "get_page pages i =
     (let n = int (length pages); j = (if i < 0 then n + i else i)
      in if j < 0 \<or> j \<ge> n then Inl IndexError else Inr (pages ! nat j))"

subsection \<open>\<^verbatim>\<open>merge_pdfs\<close>\<close>

fun add_all :: "'p list \<Rightarrow> 'p list \<Rightarrow> 'p list" where
  "add_all writer [] = writer"
| "add_all writer (page # rest) = add_all (writer @ [page]) rest"

fun merge_loop :: "'p upload list \<Rightarrow> 'p list \<Rightarrow> error + 'p list" where
  "merge_loop [] writer = Inr writer"
| "merge_loop (pdf_file # rest) writer =
     (case PdfReader pdf_file of
        Inl e \<Rightarrow> Inl e
      | Inr pages \<Rightarrow> merge_loop rest (add_all writer pages))"

definition merge_pdfs :: "'p upload list \<Rightarrow> error + 'p list" where
  "merge_pdfs uploaded_files = merge_loop uploaded_files []"

subsection \<open>\<^verbatim>\<open>_parse_segments\<close>\<close>

definition check_segment :: "string \<Rightarrow> int \<Rightarrow> int \<Rightarrow> int \<Rightarrow> error + (int \<times> int)" where
  "check_segment t start end' total_pages =
     (if start < 1 \<or> end' < 1 \<or> end' < start then Inl (InvalidSegment t)
      else if end' > total_pages then Inl (ExceedsTotalPages t total_pages)
      else Inr (start, end'))"

text \<open>The body of the loop over the tokens, for one token.\<close>

definition parse_token :: "string \<Rightarrow> int \<Rightarrow> error + (int \<times> int)" where
  "parse_token t total_pages =
     (if CHR ''-'' \<in> set t then
        (case split_first CHR ''-'' t of (a, b) \<Rightarrow>
           if \<not> isdigit a \<or> \<not> isdigit b then Inl (InvalidRange t)
           else (case py_int a of
                   Inl e \<Rightarrow> Inl e
                 | Inr start \<Rightarrow>
                     (case py_int b of
                        Inl e \<Rightarrow> Inl e
                      | Inr end' \<Rightarrow> check_segment t start end' total_pages)))
      else if \<not> isdigit t then Inl (InvalidPageNumber t)
      else (case py_int t of
              Inl e \<Rightarrow> Inl e
            | Inr start \<Rightarrow> check_segment t start start total_pages))"

fun parse_loop :: "string list \<Rightarrow> int \<Rightarrow> (int \<times> int) list \<Rightarrow> error + (int \<times> int) list" where
  "parse_loop [] total_pages segments = Inr segments"
| "parse_loop (t # ts) total_pages segments =
     (case parse_token t total_pages of
        Inl e \<Rightarrow> Inl e
      | Inr seg \<Rightarrow> parse_loop ts total_pages (segments @ [seg]))"

definition tokens_of :: "string \<Rightarrow> string list" where
  "tokens_of spec_text = filter (\<lambda>t. t \<noteq> []) (split CHR '','' spec_text)"

definition parse_segments :: "string \<Rightarrow> int \<Rightarrow> error + (int \<times> int) list" where
  "parse_segments spec_text total_pages =
     (let spec_text = remove_spaces spec_text
      in if spec_text = [] then Inl NoRangesProvided
         else parse_loop (tokens_of spec_text) total_pages [])"

subsection \<open>\<^verbatim>\<open>split_pdf\<close>\<close>

fun add_pages :: "'p list \<Rightarrow> int list \<Rightarrow> 'p list \<Rightarrow> error + 'p list" where
  "add_pages pages [] writer = Inr writer"
| "add_pages pages (p # ps) writer =
     (case get_page pages p of
        Inl e \<Rightarrow> Inl e
      | Inr page \<Rightarrow> add_pages pages ps (writer @ [page]))"

definition out_name :: "string \<Rightarrow> int \<Rightarrow> int \<Rightarrow> string" where
  "out_name base start end' =
     (if start = end' then base @ ''_p'' @ str_int start @ ''.pdf''
      else base @ ''_p'' @ str_int start @ ''-'' @ str_int end' @ ''.pdf'')"

fun split_loop ::
  "'p list \<Rightarrow> string \<Rightarrow> (int \<times> int) list \<Rightarrow> (string \<times> 'p list) list
     \<Rightarrow> error + (string \<times> 'p list) list" where
  "split_loop pages base [] created_files = Inr created_files"
| "split_loop pages base ((start, end') # rest) created_files =
     (case add_pages pages [start - 1..end' - 1] [] of
        Inl e \<Rightarrow> Inl e
      | Inr writer \<Rightarrow>
          split_loop pages base rest (created_files @ [(out_name base start end', writer)]))"

definition split_pdf :: "'p upload \<Rightarrow> string \<Rightarrow> string \<Rightarrow> error + (string \<times> 'p list) list" where
  "split_pdf uploaded_file spec_text original_filename =
     (case PdfReader uploaded_file of
        Inl e \<Rightarrow> Inl e
      | Inr pages \<Rightarrow>
          (case parse_segments spec_text (int (length pages)) of
             Inl e \<Rightarrow> Inl e
           | Inr segments \<Rightarrow> split_loop pages (base_name original_filename) segments []))"

subsection \<open>\<^verbatim>\<open>extract_pages\<close> and the guard of its button\<close>

fun extract_loop :: "'p list \<Rightarrow> int \<Rightarrow> string list \<Rightarrow> 'p list \<Rightarrow> error + 'p list" where
  "extract_loop pages total' [] writer = Inr writer"
| "extract_loop pages total' (p # ps) writer =
     (if \<not> isdigit p then Inl (InvalidPageNumber p)
      else (case py_int p of
              Inl e \<Rightarrow> Inl e
            | Inr p_int \<Rightarrow>
                if p_int < 1 \<or> p_int > total' then Inl (PageOutOfBounds p_int total')
                else (case get_page pages (p_int - 1) of
                        Inl e \<Rightarrow> Inl e
                      | Inr page \<Rightarrow> extract_loop pages total' ps (writer @ [page]))))"

definition page_tokens :: "string \<Rightarrow> string list" where
  "page_tokens pages_text =
     map strip (filter (\<lambda>p. strip p \<noteq> []) (split CHR '','' pages_text))"

definition extract_pages :: "'p upload \<Rightarrow> string \<Rightarrow> error + 'p list" where
  "extract_pages uploaded_file pages_text =
     (case PdfReader uploaded_file of
        Inl e \<Rightarrow> Inl e
      | Inr pages \<Rightarrow> extract_loop pages (int (length pages)) (page_tokens pages_text) [])"

text \<open>
  The handler of the extract button: an input that is empty, or empty once stripped, is
  answered with "Please enter at least one page number." and \<^verbatim>\<open>extract_pages\<close> is not
  called.
\<close>

definition extract_button :: "'p upload \<Rightarrow> string \<Rightarrow> error + 'p list" where
  "extract_button extract_file extract_pages_input =
     (if extract_pages_input = [] \<or> strip extract_pages_input = [] then Inl NoPageNumberEntered
      else extract_pages extract_file extract_pages_input)"

subsection \<open>The page access of the codec as a parameter\<close>

text \<open>
  The codec is not part of the repository, so the loops that read pages are also given
  with the read \<^verbatim>\<open>reader.pages[i]\<close> as a parameter \<open>page_at\<close>. With \<open>get_page\<close> they are the
  loops above. \<open>strict_page\<close> is a read that fails on every index outside \<open>0 \<le> i < total\<close>,
  negative ones included, so that a run with it reaches \<open>IndexError\<close> as soon as one
  read leaves the document. \<open>page_index\<close> is a read that returns the index it was given,
  so that a run with it returns, in place of the pages, the indices it has read.
  \<open>reads_in_range\<close> says that a read returns the page at every index within the document.
\<close>

definition strict_page :: "'p list \<Rightarrow> int \<Rightarrow> error + 'p" where
  "strict_page pages i =
     (if 0 \<le> i \<and> i < int (length pages) then Inr (pages ! nat i) else Inl IndexError)"

definition page_index :: "'p list \<Rightarrow> int \<Rightarrow> error + int" where
  "page_index pages i = Inr i"

fun add_pages_with ::
  "('p list \<Rightarrow> int \<Rightarrow> error + 'q) \<Rightarrow> 'p list \<Rightarrow> int list \<Rightarrow> 'q list \<Rightarrow> error + 'q list" where
  "add_pages_with page_at pages [] writer = Inr writer"
| "add_pages_with page_at pages (p # ps) writer =
     (case page_at pages p of
        Inl e \<Rightarrow> Inl e
      | Inr page \<Rightarrow> add_pages_with page_at pages ps (writer @ [page]))"

fun split_loop_with ::
  "('p list \<Rightarrow> int \<Rightarrow> error + 'q) \<Rightarrow> 'p list \<Rightarrow> string \<Rightarrow> (int \<times> int) list
     \<Rightarrow> (string \<times> 'q list) list \<Rightarrow> error + (string \<times> 'q list) list" where
  "split_loop_with page_at pages base [] created_files = Inr created_files"
| "split_loop_with page_at pages base ((start, end') # rest) created_files =
     (case add_pages_with page_at pages [start - 1..end' - 1] [] of
        Inl e \<Rightarrow> Inl e
      | Inr writer \<Rightarrow>
          split_loop_with page_at pages base rest
            (created_files @ [(out_name base start end', writer)]))"

definition split_pdf_with ::
  "('p list \<Rightarrow> int \<Rightarrow> error + 'q) \<Rightarrow> 'p upload \<Rightarrow> string \<Rightarrow> string
     \<Rightarrow> error + (string \<times> 'q list) list" where
  "split_pdf_with page_at uploaded_file spec_text original_filename =
     (case PdfReader uploaded_file of
        Inl e \<Rightarrow> Inl e
      | Inr pages \<Rightarrow>
          (case parse_segments spec_text (int (length pages)) of
             Inl e \<Rightarrow> Inl e
           | Inr segments \<Rightarrow>
               split_loop_with page_at pages (base_name original_filename) segments []))"

fun extract_loop_with ::
  "('p list \<Rightarrow> int \<Rightarrow> error + 'q) \<Rightarrow> 'p list \<Rightarrow> int \<Rightarrow> string list \<Rightarrow> 'q list
     \<Rightarrow> error + 'q list" where
  "extract_loop_with page_at pages total' [] writer = Inr writer"
| "extract_loop_with page_at pages total' (p # ps) writer =
     (if \<not> isdigit p then Inl (InvalidPageNumber p)
      else (case py_int p of
              Inl e \<Rightarrow> Inl e
            | Inr p_int \<Rightarrow>
                if p_int < 1 \<or> p_int > total' then Inl (PageOutOfBounds p_int total')
                else (case page_at pages (p_int - 1) of
                        Inl e \<Rightarrow> Inl e
                      | Inr page \<Rightarrow>
                          extract_loop_with page_at pages total' ps (writer @ [page]))))"

definition extract_pages_with ::
  "('p list \<Rightarrow> int \<Rightarrow> error + 'q) \<Rightarrow> 'p upload \<Rightarrow> string \<Rightarrow> error + 'q list" where
  "extract_pages_with page_at uploaded_file pages_text =
     (case PdfReader uploaded_file of
        Inl e \<Rightarrow> Inl e
      | Inr pages \<Rightarrow>
          extract_loop_with page_at pages (int (length pages)) (page_tokens pages_text) [])"

definition reads_in_range :: "('p list \<Rightarrow> int \<Rightarrow> error + 'p) \<Rightarrow> bool" where
  "reads_in_range page_at =
     (\<forall>pages i. 0 \<le> i \<and> i < int (length pages) \<longrightarrow> page_at pages i = Inr (pages ! nat i))"

subsection \<open>What a token denotes\<close>

text \<open>
  The vocabulary of the statements below. A string is \<open>decimal\<close> when it is a non-empty
  run of the digits 0 to 9; a token is well formed when it is a decimal number, or two
  decimal numbers around its first \<^verbatim>\<open>-\<close>; \<open>token_segment\<close> is the segment such a token
  stands for.
\<close>

definition decimal :: "string \<Rightarrow> bool" where
  "decimal s = (s \<noteq> [] \<and> list_all is_decimal s)"

definition token_segment :: "string \<Rightarrow> int \<times> int" where
  "token_segment t =
     (if CHR ''-'' \<in> set t
      then (dec_value (fst (split_first CHR ''-'' t)), dec_value (snd (split_first CHR ''-'' t)))
      else (dec_value t, dec_value t))"

definition well_formed :: "string \<Rightarrow> bool" where
  "well_formed t =
     (if CHR ''-'' \<in> set t
      then decimal (fst (split_first CHR ''-'' t)) \<and> decimal (snd (split_first CHR ''-'' t))
      else decimal t)"

text \<open>
  A segment is valid for a page count when \<open>1 \<le> start \<le> end \<le> total\<close>. The output of a
  segment is its file name together with the pages \<open>start..end\<close> of the document.
\<close>

definition valid_segment :: "int \<Rightarrow> int \<times> int \<Rightarrow> bool" where
  "valid_segment n seg = (1 \<le> fst seg \<and> fst seg \<le> snd seg \<and> snd seg \<le> n)"

definition segment_output :: "'p list \<Rightarrow> string \<Rightarrow> int \<times> int \<Rightarrow> string \<times> 'p list" where
  "segment_output pages base seg =
     (out_name base (fst seg) (snd seg), drop (nat (fst seg - 1)) (take (nat (snd seg)) pages))"

text \<open>
  A token of a page list is a valid page for a page count when it is a decimal number
  between 1 and the page count.
\<close>

definition valid_page :: "int \<Rightarrow> string \<Rightarrow> bool" where
  "valid_page n t = (decimal t \<and> 1 \<le> dec_value t \<and> dec_value t \<le> n)"

section \<open>Merging\<close>

lemma add_all_append: "add_all writer pages = writer @ pages"
  by (induction pages arbitrary: writer) simp_all

lemma merge_loop_decoded:
  "merge_loop (map Some docs) writer = Inr (writer @ concat docs)"
  by (induction docs arbitrary: writer) (simp_all add: PdfReader_def add_all_append)

text \<open>
  Claim C5. Merging decodable documents yields one output, the concatenation of their
  page lists in input order. For two documents with \<open>A\<close> and \<open>B\<close> pages the output is
  the first document's pages followed by the second's, \<open>A + B\<close> pages in all.
\<close>

theorem merge_pdfs_concatenates:
  "merge_pdfs (map Some (docs :: 'p list list)) = Inr (concat docs)
   \<and> merge_pdfs [Some (a :: 'p list), Some b] = Inr (a @ b)
   \<and> length (a @ b) = length a + length b"
proof -
  have general: "merge_pdfs (map Some ds) = Inr (concat ds)" for ds :: "'p list list"
    unfolding merge_pdfs_def by (simp add: merge_loop_decoded)
  from general [of "[a, b]"] have "merge_pdfs [Some a, Some b] = Inr (a @ b)"
    by simp
  with general [of docs] show ?thesis
    by simp
qed

text \<open>
  Claim C10. On the empty sequence of uploads \<^verbatim>\<open>merge_pdfs\<close> raises nothing and returns
  a document with zero pages.
\<close>

theorem merge_pdfs_empty: "merge_pdfs [] = Inr []"
  by (simp add: merge_pdfs_def)

section \<open>Splitting a string at a separator\<close>

text \<open>
  The pieces \<^verbatim>\<open>split\<close> returns contain no separator, and joining them with the
  separator gives the string back.
\<close>

lemma split_not_Nil: "split sep s \<noteq> []"
  by (induction s) (auto split: list.splits)

lemma split_no_sep: "w \<in> set (split sep s) \<Longrightarrow> sep \<notin> set w"
proof (induction s arbitrary: w)
  case Nil
  then show ?case by simp
next
  case (Cons c cs)
  show ?case
  proof (cases "c = sep")
    case True
    with Cons show ?thesis by auto
  next
    case False
    obtain v vs where vs: "split sep cs = v # vs"
      using split_not_Nil [of sep cs] by (cases "split sep cs") auto
    with Cons.prems False have "w = c # v \<or> w \<in> set vs"
      by simp
    with Cons.IH [of v] Cons.IH [of w] vs False show ?thesis
      by auto
  qed
qed


section \<open>Decimal numbers\<close>

lemma digit_cases: "(d::nat) < 10 \<Longrightarrow> d \<in> {0, 1, 2, 3, 4, 5, 6, 7, 8, 9}"
  by auto

lemma is_decimal_digit: "d < 10 \<Longrightarrow> is_decimal (digit_char d)"
  by (drule digit_cases) (auto simp: is_decimal_def digit_char_def)

lemma digit_val_digit: "d < 10 \<Longrightarrow> digit_val (digit_char d) = int d"
  by (drule digit_cases) (auto simp: digit_val_def digit_char_def)


lemma dec_value_snoc: "dec_value (s @ [c]) = 10 * dec_value s + digit_val c"
  by (simp add: dec_value_def)

lemma dec_value_str_nat: "dec_value (str_nat n) = int n"
proof (induction n rule: str_nat.induct)
  case (1 n)
  show ?case
  proof (cases "n < 10")
    case True
    then show ?thesis
      by (subst str_nat.simps) (simp add: dec_value_def digit_val_digit)
  next
    case False
    with "1" have "dec_value (str_nat (n div 10)) = int (n div 10)"
      by simp
    moreover have "10 * int (n div 10) + int (n mod 10) = int n"
      by presburger
    ultimately show ?thesis using False
      by (subst str_nat.simps) (simp add: dec_value_snoc digit_val_digit)
  qed
qed

lemma decimal_str_nat: "decimal (str_nat n)"
proof (induction n rule: str_nat.induct)
  case (1 n)
  show ?case
  proof (cases "n < 10")
    case True
    then show ?thesis
      by (subst str_nat.simps) (simp add: decimal_def is_decimal_digit)
  next
    case False
    with "1" have "decimal (str_nat (n div 10))"
      by simp
    with False show ?thesis
      by (subst str_nat.simps) (simp add: decimal_def is_decimal_digit)
  qed
qed

lemma minus_not_decimal: "\<not> is_decimal CHR ''-''"
  by (simp add: is_decimal_def)

lemma decimal_no_minus: "decimal s \<Longrightarrow> CHR ''-'' \<notin> set s"
  using minus_not_decimal by (auto simp: decimal_def list_all_iff)

lemma split_first_join: "sep \<notin> set a \<Longrightarrow> split_first sep (a @ sep # b) = (a, b)"
  by (induction a) (auto simp: split_first_def)

lemma decimal_isdigit: "decimal s \<Longrightarrow> isdigit s"
  by (auto simp: decimal_def isdigit_def isdigit_char_def list_all_iff)

lemma py_int_decimal: "decimal s \<Longrightarrow> py_int s = Inr (dec_value s)"
  by (simp add: decimal_def py_int_def)

lemma py_int_Inr: "py_int s = Inr n \<Longrightarrow> decimal s \<and> n = dec_value s"
  by (auto simp: decimal_def py_int_def split: if_splits)

lemma token_segment_number: "token_segment (str_nat n) = (int n, int n)"
  using decimal_no_minus [OF decimal_str_nat, of n]
  by (simp add: token_segment_def dec_value_str_nat)

lemma token_segment_range:
  "token_segment (str_nat a @ ''-'' @ str_nat b) = (int a, int b)"
  using split_first_join [OF decimal_no_minus [OF decimal_str_nat], of a "str_nat b"]
  by (simp add: token_segment_def dec_value_str_nat)

section \<open>The range parser\<close>

lemma check_segment_Inr:
  "check_segment t a b n = Inr seg \<Longrightarrow> seg = (a, b) \<and> 1 \<le> a \<and> a \<le> b \<and> b \<le> n"
  by (auto simp: check_segment_def split: if_splits)

lemma parse_token_Inr:
  assumes "parse_token t n = Inr seg"
  shows "seg = token_segment t \<and> well_formed t \<and> 1 \<le> fst seg \<and> fst seg \<le> snd seg \<and> snd seg \<le> n"
proof (cases "CHR ''-'' \<in> set t")
  case True
  obtain a b where ab: "split_first CHR ''-'' t = (a, b)"
    by (cases "split_first CHR ''-'' t")
  from assms True ab obtain x y where
    "py_int a = Inr x" "py_int b = Inr y" "check_segment t x y n = Inr seg"
    by (auto simp: parse_token_def split: if_splits sum.splits)
  with True ab show ?thesis
    by (auto simp: token_segment_def well_formed_def dest!: py_int_Inr check_segment_Inr)
next
  case False
  from assms False obtain x where "py_int t = Inr x" "check_segment t x x n = Inr seg"
    by (auto simp: parse_token_def split: if_splits sum.splits)
  with False show ?thesis
    by (auto simp: token_segment_def well_formed_def dest!: py_int_Inr check_segment_Inr)
qed

lemma parse_loop_Inr:
  "parse_loop ts n acc = Inr segs \<Longrightarrow> segs = acc @ map token_segment ts"
proof (induction ts arbitrary: acc)
  case Nil
  then show ?case by simp
next
  case (Cons t ts)
  then obtain seg where t: "parse_token t n = Inr seg"
    and rest: "parse_loop ts n (acc @ [seg]) = Inr segs"
    by (auto split: sum.splits)
  from Cons.IH [OF rest] parse_token_Inr [OF t] show ?case
    by simp
qed

lemma parse_loop_first_error:
  assumes "\<forall>g \<in> set good. \<not> isl (parse_token g n)"
    and "parse_token t n = Inl e"
  shows "parse_loop (good @ t # rest) n acc = Inl e"
  using assms
proof (induction good arbitrary: acc)
  case Nil
  then show ?case by simp
next
  case (Cons g good)
  then obtain seg where "parse_token g n = Inr seg"
    by (cases "parse_token g n") auto
  with Cons show ?case by simp
qed

lemma parse_token_well_formed:
  assumes "well_formed t" "token_segment t = (a, b)"
  shows "parse_token t n = check_segment t a b n"
proof (cases "CHR ''-'' \<in> set t")
  case True
  obtain x y where xy: "split_first CHR ''-'' t = (x, y)"
    by (cases "split_first CHR ''-'' t")
  with assms True have "decimal x" "decimal y" "dec_value x = a" "dec_value y = b"
    by (simp_all add: well_formed_def token_segment_def)
  with True xy show ?thesis
    by (simp add: parse_token_def py_int_decimal decimal_isdigit)
next
  case False
  with assms have "decimal t" "dec_value t = a" "b = a"
    by (auto simp: well_formed_def token_segment_def)
  with False show ?thesis
    by (simp add: parse_token_def py_int_decimal decimal_isdigit)
qed

lemma parse_token_invalid:
  assumes "well_formed t" "token_segment t = (a, b)" "a < 1 \<or> b < 1 \<or> b < a"
  shows "parse_token t n = Inl (InvalidSegment t)"
  using assms(3) by (auto simp: parse_token_well_formed [OF assms(1,2)] check_segment_def)

lemma parse_token_exceeds:
  assumes "well_formed t" "token_segment t = (a, b)" "1 \<le> a" "a \<le> b" "b > n"
  shows "parse_token t n = Inl (ExceedsTotalPages t n)"
  using assms(3-5) by (auto simp: parse_token_well_formed [OF assms(1,2)] check_segment_def)

lemma parse_segments_Inr:
  assumes "parse_segments spec total_pages = Inr segments"
  shows "segments = map token_segment (tokens_of (remove_spaces spec))"
  using assms parse_loop_Inr [of "tokens_of (remove_spaces spec)" total_pages "[]" segments]
  by (simp add: parse_segments_def Let_def split: if_splits)

lemma parse_segments_tokens:
  assumes "tokens_of (remove_spaces spec) \<noteq> []"
  shows "parse_segments spec total_pages = parse_loop (tokens_of (remove_spaces spec)) total_pages []"
  using assms by (auto simp: parse_segments_def Let_def tokens_of_def)

text \<open>
  Claim C1. When \<^verbatim>\<open>_parse_segments\<close> returns, its result is the list of the segments of
  the non-empty comma-separated tokens of the spec (spaces removed), one per token, in
  token order, with nothing dropped or merged. A bare number \<open>n\<close> stands for \<open>(n, n)\<close> and
  a range \<open>a-b\<close> for \<open>(a, b)\<close>. The parser maps \<^verbatim>\<open>"1,3-5,7"\<close> with 10 pages to
  \<open>[(1,1),(3,5),(7,7)]\<close> and \<^verbatim>\<open>"1,,3"\<close> with 5 pages to \<open>[(1,1),(3,3)]\<close>.
\<close>

theorem parse_segments_token_order:
  "(parse_segments spec total_pages = Inr segments \<longrightarrow>
      segments = map token_segment (tokens_of (remove_spaces spec))
      \<and> length segments = length (tokens_of (remove_spaces spec)))
   \<and> token_segment (str_nat n) = (int n, int n)
   \<and> token_segment (str_nat a @ ''-'' @ str_nat b) = (int a, int b)
   \<and> parse_segments ''1,3-5,7'' 10 = Inr [(1, 1), (3, 5), (7, 7)]
   \<and> parse_segments ''1,,3'' 5 = Inr [(1, 1), (3, 3)]"
proof -
  have ex1: "parse_segments ''1,3-5,7'' 10 = Inr [(1, 1), (3, 5), (7, 7)]"
    by code_simp
  have ex2: "parse_segments ''1,,3'' 5 = Inr [(1, 1), (3, 3)]"
    by code_simp
  have main: "parse_segments spec total_pages = Inr segments \<longrightarrow>
      segments = map token_segment (tokens_of (remove_spaces spec))
      \<and> length segments = length (tokens_of (remove_spaces spec))"
  proof
    assume "parse_segments spec total_pages = Inr segments"
    then have "segments = map token_segment (tokens_of (remove_spaces spec))"
      by (rule parse_segments_Inr)
    then show "segments = map token_segment (tokens_of (remove_spaces spec))
      \<and> length segments = length (tokens_of (remove_spaces spec))"
      by simp
  qed
  from main token_segment_number [of n] token_segment_range [of a b] ex1 ex2
  show ?thesis by blast
qed

theorem parse_segments_token_order_witness:
  "parse_segments ''2, 2-4,,2'' 6 = Inr [(2, 2), (2, 4), (2, 2)]
   \<and> tokens_of (remove_spaces ''2, 2-4,,2'') = [''2'', ''2-4'', ''2'']
   \<and> [(2, 2), (2, 4), (2, 2)] = map token_segment [''2'', ''2-4'', ''2'']"
proof -
  have p: "parse_segments ''2, 2-4,,2'' 6 = Inr [(2, 2), (2, 4), (2, 2)]"
    by code_simp
  have t: "tokens_of (remove_spaces ''2, 2-4,,2'') = [''2'', ''2-4'', ''2'']"
    by code_simp
  from parse_segments_token_order [of "''2, 2-4,,2''" 6 "[(2, 2), (2, 4), (2, 2)]"] p t
  show ?thesis by simp
qed

text \<open>
  Claim C2. The parser fails fast: the error of the first token that the loop body
  rejects, every token before it being accepted, is the error of the whole parse. When
  that token is well formed and its start is below 1, its end below 1 or its end below
  its start, the error is \<open>InvalidSegment\<close> with the token; when it passes that check
  and its end exceeds the page count, the error is \<open>ExceedsTotalPages\<close> with the token and
  the page count. \<^verbatim>\<open>"5-3"\<close> with 10 pages is an invalid segment, and \<^verbatim>\<open>"1,11"\<close> with 10
  pages exceeds the total on token \<^verbatim>\<open>11\<close>.
\<close>

theorem parse_segments_fail_fast:
  assumes "tokens_of (remove_spaces spec) = good @ t # rest"
    and "\<forall>g \<in> set good. \<not> isl (parse_token g total_pages)"
  shows "(parse_token t total_pages = Inl e \<longrightarrow> parse_segments spec total_pages = Inl e)
    \<and> (well_formed t \<and> token_segment t = (start, end') \<and> (start < 1 \<or> end' < 1 \<or> end' < start)
         \<longrightarrow> parse_segments spec total_pages = Inl (InvalidSegment t))
    \<and> (well_formed t \<and> token_segment t = (start, end') \<and> 1 \<le> start \<and> start \<le> end'
           \<and> end' > total_pages
         \<longrightarrow> parse_segments spec total_pages = Inl (ExceedsTotalPages t total_pages))
    \<and> parse_segments ''5-3'' 10 = Inl (InvalidSegment ''5-3'')
    \<and> parse_segments ''1,11'' 10 = Inl (ExceedsTotalPages ''11'' 10)"
proof -
  have loop: "parse_segments spec total_pages = parse_loop (good @ t # rest) total_pages []"
    using parse_segments_tokens [of spec total_pages] assms(1) by simp
  have first: "parse_segments spec total_pages = Inl err" if "parse_token t total_pages = Inl err" for err
    using loop parse_loop_first_error [OF assms(2) that] by simp
  have ex1: "parse_segments ''5-3'' 10 = Inl (InvalidSegment ''5-3'')"
    by code_simp
  have ex2: "parse_segments ''1,11'' 10 = Inl (ExceedsTotalPages ''11'' 10)"
    by code_simp
  show ?thesis
    using first parse_token_invalid [of t start end' total_pages]
      parse_token_exceeds [of t start end' total_pages] ex1 ex2
    by blast
qed

theorem parse_segments_fail_fast_witness:
  "tokens_of (remove_spaces ''2, 0-4,99'') = [''2''] @ ''0-4'' # [''99'']
   \<and> \<not> isl (parse_token ''2'' 5)
   \<and> well_formed ''0-4'' \<and> token_segment ''0-4'' = (0, 4)
   \<and> parse_segments ''2, 0-4,99'' 5 = Inl (InvalidSegment ''0-4'')"
proof -
  have t: "tokens_of (remove_spaces ''2, 0-4,99'') = [''2''] @ ''0-4'' # [''99'']"
    by code_simp
  have g: "\<forall>g \<in> set [''2'']. \<not> isl (parse_token g 5)"
    by code_simp
  have w: "well_formed ''0-4''"
    by code_simp
  have s: "token_segment ''0-4'' = (0, 4)"
    by code_simp
  from parse_segments_fail_fast [OF t g, of NoRangesProvided 0 4] w s g t
  show ?thesis by simp
qed

section \<open>Splitting\<close>

lemma get_page_in_range:
  "0 \<le> i \<Longrightarrow> i < int (length pages) \<Longrightarrow> get_page pages i = Inr (pages ! nat i)"
  by (simp add: get_page_def Let_def)

lemma add_pages_in_range:
  "\<forall>p \<in> set ps. 0 \<le> p \<and> p < int (length pages)
    \<Longrightarrow> add_pages pages ps writer = Inr (writer @ map (\<lambda>p. pages ! nat p) ps)"
  by (induction ps arbitrary: writer) (simp_all add: get_page_in_range)

lemma page_slice:
  assumes "1 \<le> start" "start \<le> end'" "end' \<le> int (length pages)"
  shows "map (\<lambda>p. pages ! nat p) [start - 1..end' - 1]
           = drop (nat (start - 1)) (take (nat end') pages)"
proof (rule nth_equalityI)
  show "length (map (\<lambda>p. pages ! nat p) [start - 1..end' - 1])
          = length (drop (nat (start - 1)) (take (nat end') pages))"
    using assms by simp
next
  fix k
  assume "k < length (map (\<lambda>p. pages ! nat p) [start - 1..end' - 1])"
  then have k: "int k < end' - start + 1"
    by simp
  then have "[start - 1..end' - 1] ! k = start - 1 + int k"
    by simp
  moreover have "nat (start - 1 + int k) = nat (start - 1) + k"
    using assms by simp
  moreover have "nat (start - 1) + k < nat end'"
    using assms k by linarith
  ultimately show "map (\<lambda>p. pages ! nat p) [start - 1..end' - 1] ! k
          = drop (nat (start - 1)) (take (nat end') pages) ! k"
    using assms k by simp
qed

lemma add_pages_segment:
  assumes "1 \<le> start" "start \<le> end'" "end' \<le> int (length pages)"
  shows "add_pages pages [start - 1..end' - 1] [] = Inr (drop (nat (start - 1)) (take (nat end') pages))"
proof -
  have "\<forall>p \<in> set [start - 1..end' - 1]. 0 \<le> p \<and> p < int (length pages)"
    using assms by auto
  then show ?thesis
    by (simp add: add_pages_in_range page_slice [OF assms])
qed

lemma parse_loop_valid:
  "parse_loop ts n acc = Inr segs \<Longrightarrow> list_all (valid_segment n) acc
     \<Longrightarrow> list_all (valid_segment n) segs"
proof (induction ts arbitrary: acc)
  case Nil
  then show ?case by simp
next
  case (Cons t ts)
  then obtain seg where t: "parse_token t n = Inr seg"
    and rest: "parse_loop ts n (acc @ [seg]) = Inr segs"
    by (auto split: sum.splits)
  from parse_token_Inr [OF t] have "valid_segment n seg"
    unfolding valid_segment_def by blast
  with Cons.prems(2) have "list_all (valid_segment n) (acc @ [seg])"
    by simp
  with Cons.IH [OF rest] show ?case .
qed

lemma parse_segments_valid:
  "parse_segments spec n = Inr segs \<Longrightarrow> list_all (valid_segment n) segs"
  using parse_loop_valid [of "tokens_of (remove_spaces spec)" n "[]" segs]
  by (simp add: parse_segments_def Let_def split: if_splits)

lemma split_loop_valid:
  "list_all (valid_segment (int (length pages))) segs
    \<Longrightarrow> split_loop pages base segs created = Inr (created @ map (segment_output pages base) segs)"
proof (induction segs arbitrary: created)
  case Nil
  then show ?case by simp
next
  case (Cons seg segs)
  obtain start end' where seg: "seg = (start, end')"
    by (cases seg)
  with Cons.prems have "1 \<le> start" "start \<le> end'" "end' \<le> int (length pages)"
    by (simp_all add: valid_segment_def)
  then have "add_pages pages [start - 1..end' - 1] []
      = Inr (drop (nat (start - 1)) (take (nat end') pages))"
    by (rule add_pages_segment)
  with Cons seg show ?case
    by (simp add: segment_output_def)
qed

lemma split_pdf_parsed:
  assumes "parse_segments spec (int (length pages)) = Inr segs"
  shows "split_pdf (Some pages) spec name
           = Inr (map (segment_output pages (base_name name)) segs)"
  using assms split_loop_valid [OF parse_segments_valid [OF assms], of "base_name name" "[]"]
  by (simp add: split_pdf_def PdfReader_def)

lemma parse_loop_no_index_error: "parse_loop ts n acc \<noteq> Inl IndexError"
  by (induction ts arbitrary: acc)
     (auto simp: parse_token_def check_segment_def py_int_def split: sum.splits if_splits prod.splits)

lemma str_int_nonneg: "0 \<le> i \<Longrightarrow> str_int i = str_nat (nat i)"
  by (simp add: str_int_def)

lemma dec_value_str_int: "0 \<le> i \<Longrightarrow> dec_value (str_int i) = i"
  by (simp add: str_int_nonneg dec_value_str_nat)

lemma str_int_no_minus: "0 \<le> i \<Longrightarrow> CHR ''-'' \<notin> set (str_int i)"
  using decimal_no_minus [OF decimal_str_nat] by (simp add: str_int_nonneg)

lemma str_int_inj: "0 \<le> i \<Longrightarrow> 0 \<le> j \<Longrightarrow> str_int i = str_int j \<Longrightarrow> i = j"
  using dec_value_str_int by metis

lemma base_name_no_dot: "CHR ''.'' \<notin> set name \<Longrightarrow> base_name name = name"
  by (simp add: base_name_def)

lemma rsplit_parts:
  "sep \<in> set xs \<Longrightarrow>
     xs = rev (drop 1 (dropWhile (\<lambda>c. c \<noteq> sep) (rev xs))) @ [sep]
            @ rev (takeWhile (\<lambda>c. c \<noteq> sep) (rev xs))"
proof -
  assume "sep \<in> set xs"
  then have "dropWhile (\<lambda>c. c \<noteq> sep) (rev xs) \<noteq> []"
    by simp
  then obtain ys where ys: "dropWhile (\<lambda>c. c \<noteq> sep) (rev xs) = sep # ys"
    using hd_dropWhile [of "\<lambda>c. c \<noteq> sep" "rev xs"]
    by (cases "dropWhile (\<lambda>c. c \<noteq> sep) (rev xs)") auto
  have "rev xs = takeWhile (\<lambda>c. c \<noteq> sep) (rev xs) @ dropWhile (\<lambda>c. c \<noteq> sep) (rev xs)"
    by simp
  then have "rev xs = takeWhile (\<lambda>c. c \<noteq> sep) (rev xs) @ sep # ys"
    using ys by simp
  then have "xs = rev (takeWhile (\<lambda>c. c \<noteq> sep) (rev xs) @ sep # ys)"
    by (metis rev_rev_ident)
  then show ?thesis
    using ys by simp
qed

lemma base_name_dot:
  assumes "CHR ''.'' \<in> set name"
  shows "\<exists>ext. name = base_name name @ ''.'' @ ext \<and> CHR ''.'' \<notin> set ext"
proof -
  let ?ext = "rev (takeWhile (\<lambda>c. c \<noteq> CHR ''.'') (rev name))"
  have "name = base_name name @ ''.'' @ ?ext"
    using rsplit_parts [OF assms] assms by (simp add: base_name_def)
  moreover have "CHR ''.'' \<notin> set ?ext"
    using set_takeWhileD [of "CHR ''.''" "\<lambda>c. c \<noteq> CHR ''.''" "rev name"] by auto
  ultimately show ?thesis by blast
qed

lemma out_name_inj:
  assumes "valid_segment n (s1, e1)" "valid_segment m (s2, e2)"
    and "out_name base s1 e1 = out_name base s2 e2"
  shows "(s1, e1) = (s2, e2)"
proof -
  from assms(1,2) have pos: "0 \<le> s1" "0 \<le> e1" "0 \<le> s2" "0 \<le> e2"
    by (simp_all add: valid_segment_def)
  let ?r1 = "if s1 = e1 then str_int s1 else str_int s1 @ ''-'' @ str_int e1"
  let ?r2 = "if s2 = e2 then str_int s2 else str_int s2 @ ''-'' @ str_int e2"
  from assms(3) have eq: "?r1 = ?r2"
    by (simp add: out_name_def split: if_splits)
  show ?thesis
  proof (cases "s1 = e1")
    case True
    show ?thesis
    proof (cases "s2 = e2")
      case True
      with \<open>s1 = e1\<close> eq pos show ?thesis
        by (simp add: str_int_inj)
    next
      case False
      with \<open>s1 = e1\<close> eq have "str_int s1 = str_int s2 @ ''-'' @ str_int e2"
        by simp
      then have "CHR ''-'' \<in> set (str_int s1)"
        by simp
      with str_int_no_minus [OF pos(1)] show ?thesis
        by simp
    qed
  next
    case False
    show ?thesis
    proof (cases "s2 = e2")
      case True
      with \<open>s1 \<noteq> e1\<close> eq have "str_int s2 = str_int s1 @ ''-'' @ str_int e1"
        by simp
      then have "CHR ''-'' \<in> set (str_int s2)"
        by simp
      with str_int_no_minus [OF pos(3)] show ?thesis
        by simp
    next
      case False
      with \<open>s1 \<noteq> e1\<close> eq have "str_int s1 @ CHR ''-'' # str_int e1 = str_int s2 @ CHR ''-'' # str_int e2"
        by simp
      then have "split_first CHR ''-'' (str_int s1 @ CHR ''-'' # str_int e1)
          = split_first CHR ''-'' (str_int s2 @ CHR ''-'' # str_int e2)"
        by simp
      then have "str_int s1 = str_int s2 \<and> str_int e1 = str_int e2"
        by (simp add: split_first_join str_int_no_minus pos)
      with pos show ?thesis
        by (simp add: str_int_inj)
    qed
  qed
qed

lemma names_distinct_iff:
  assumes "list_all (valid_segment n) segs"
  shows "distinct (map (\<lambda>seg. out_name base (fst seg) (snd seg)) segs) = distinct segs"
proof -
  have "inj_on (\<lambda>seg. out_name base (fst seg) (snd seg)) (set segs)"
  proof (rule inj_onI)
    fix x y
    assume "x \<in> set segs" "y \<in> set segs"
      and eq: "out_name base (fst x) (snd x) = out_name base (fst y) (snd y)"
    with assms have "valid_segment n (fst x, snd x)" "valid_segment n (fst y, snd y)"
      by (simp_all add: list_all_iff)
    from out_name_inj [OF this eq] show "x = y"
      by (simp add: prod_eq_iff)
  qed
  then show ?thesis
    by (simp add: distinct_map)
qed

lemma names_agree_iff:
  assumes "list_all (valid_segment n) segs" "i < length segs" "j < length segs"
  shows "(out_name base (fst (segs ! i)) (snd (segs ! i)) = out_name base (fst (segs ! j)) (snd (segs ! j)))
           = (segs ! i = segs ! j)"
proof
  assume eq: "out_name base (fst (segs ! i)) (snd (segs ! i)) = out_name base (fst (segs ! j)) (snd (segs ! j))"
  from assms have "valid_segment n (fst (segs ! i), snd (segs ! i))"
    "valid_segment n (fst (segs ! j), snd (segs ! j))"
    by (simp_all add: list_all_length)
  from out_name_inj [OF this eq] show "segs ! i = segs ! j"
    by (simp add: prod_eq_iff)
next
  assume "segs ! i = segs ! j"
  then show "out_name base (fst (segs ! i)) (snd (segs ! i)) = out_name base (fst (segs ! j)) (snd (segs ! j))"
    by simp
qed

text \<open>
  Claim C3, as the code has it. When the spec parses into \<open>k\<close> segments, \<^verbatim>\<open>split_pdf\<close>
  returns \<open>k\<close> outputs, one per segment in segment order. The output of \<open>(start, end)\<close>
  holds pages \<open>start..end\<close> of the source in order and is named \<^verbatim>\<open><base>_p<start>.pdf\<close>
  when \<open>start = end\<close> and \<^verbatim>\<open><base>_p<start>-<end>.pdf\<close> otherwise: the name ends in
  \<^verbatim>\<open>.pdf\<close>. The base is the whole file name when it has no dot, and otherwise what
  precedes its last dot. The numbers are rendered in decimal (\<open>dec_value_str_int\<close>).
\<close>

theorem split_pdf_outputs:
  assumes "parse_segments spec (int (length pages)) = Inr segments"
  shows "split_pdf (Some pages) spec original_filename =
           Inr (map (\<lambda>(start, end').
                      (base_name original_filename @ ''_p'' @ str_int start
                         @ (if start = end' then [] else ''-'' @ str_int end') @ ''.pdf'',
                       drop (nat (start - 1)) (take (nat end') pages)))
                    segments)
    \<and> (CHR ''.'' \<notin> set original_filename \<longrightarrow> base_name original_filename = original_filename)
    \<and> (CHR ''.'' \<in> set original_filename \<longrightarrow>
          (\<exists>ext. original_filename = base_name original_filename @ ''.'' @ ext
                 \<and> CHR ''.'' \<notin> set ext))"
proof -
  have "segment_output pages (base_name original_filename)
      = (\<lambda>(start, end').
          (base_name original_filename @ ''_p'' @ str_int start
             @ (if start = end' then [] else ''-'' @ str_int end') @ ''.pdf'',
           drop (nat (start - 1)) (take (nat end') pages)))"
    by (rule ext) (simp add: segment_output_def out_name_def case_prod_beta)
  with split_pdf_parsed [OF assms, of original_filename]
  have "split_pdf (Some pages) spec original_filename =
           Inr (map (\<lambda>(start, end').
                      (base_name original_filename @ ''_p'' @ str_int start
                         @ (if start = end' then [] else ''-'' @ str_int end') @ ''.pdf'',
                       drop (nat (start - 1)) (take (nat end') pages)))
                    segments)"
    by simp
  with base_name_no_dot [of original_filename] base_name_dot [of original_filename]
  show ?thesis by blast
qed

theorem split_pdf_outputs_witness:
  "parse_segments ''2, 1-3'' (int (length [10, 20, 30 :: nat])) = Inr [(2, 2), (1, 3)]
   \<and> split_pdf (Some [10, 20, 30 :: nat]) ''2, 1-3'' ''scan.v2.pdf''
       = Inr [(''scan.v2_p2.pdf'', [20]), (''scan.v2_p1-3.pdf'', [10, 20, 30])]"
proof -
  have p: "parse_segments ''2, 1-3'' (int (length [10, 20, 30 :: nat])) = Inr [(2, 2), (1, 3)]"
    by code_simp
  have b: "base_name ''scan.v2.pdf'' = ''scan.v2''"
    by code_simp
  have s2: "str_int 2 = ''2''" and s1: "str_int 1 = ''1''" and s3: "str_int 3 = ''3''"
    by code_simp+
  from split_pdf_outputs [OF p, of "''scan.v2.pdf''"] p
  show ?thesis by (simp add: b s1 s2 s3)
qed

text \<open>
  Claim C3 as stated fails on the name: splitting \<^verbatim>\<open>doc.pdf\<close> at page 2 names the output
  \<^verbatim>\<open>doc_p2.pdf\<close>, not \<^verbatim>\<open>doc_p2\<close>.
\<close>

theorem split_pdf_name_counterexample:
  "split_pdf (Some [10, 20, 30 :: nat]) ''2'' ''doc.pdf'' = Inr [(''doc_p2.pdf'', [20])]
   \<and> split_pdf (Some [10, 20, 30 :: nat]) ''2'' ''doc.pdf'' \<noteq> Inr [(''doc_p2'', [20])]"
proof -
  have "split_pdf (Some [10, 20, 30 :: nat]) ''2'' ''doc.pdf'' = Inr [(''doc_p2.pdf'', [20])]"
    by code_simp
  then show ?thesis by simp
qed

text \<open>
  Claim C7, as the code has it. A successful split has one output per parsed segment,
  and two outputs carry the same name exactly when their segments are equal: the names
  are pairwise distinct if and only if the parsed segments are. Overlapping segments
  that differ get different names.
\<close>

theorem split_pdf_names_distinct_iff:
  assumes "parse_segments spec (int (length pages)) = Inr segments"
    and "split_pdf (Some pages) spec original_filename = Inr created_files"
  shows "length created_files = length segments
    \<and> (\<forall>i < length segments. \<forall>j < length segments.
          (fst (created_files ! i) = fst (created_files ! j)) = (segments ! i = segments ! j))
    \<and> distinct (map fst created_files) = distinct segments"
proof -
  let ?name = "\<lambda>seg. out_name (base_name original_filename) (fst seg) (snd seg)"
  from split_pdf_parsed [OF assms(1), of original_filename] assms(2)
  have "created_files = map (segment_output pages (base_name original_filename)) segments"
    by simp
  then have names: "map fst created_files = map ?name segments"
    by (simp add: segment_output_def)
  then have len: "length created_files = length segments"
    using length_map by metis
  have valid: "list_all (valid_segment (int (length pages))) segments"
    using assms(1) by (rule parse_segments_valid)
  have "(fst (created_files ! i) = fst (created_files ! j)) = (segments ! i = segments ! j)"
    if "i < length segments" "j < length segments" for i j
  proof -
    from that len have "fst (created_files ! i) = map fst created_files ! i"
      "fst (created_files ! j) = map fst created_files ! j"
      by simp_all
    with names that have "fst (created_files ! i) = ?name (segments ! i)"
      "fst (created_files ! j) = ?name (segments ! j)"
      by simp_all
    with names_agree_iff [OF valid that] show ?thesis
      by simp
  qed
  with len names names_distinct_iff [OF valid, of "base_name original_filename"]
  show ?thesis by simp
qed

theorem split_pdf_names_distinct_iff_witness:
  "parse_segments ''1-2,2-3,2'' (int (length [10, 20, 30 :: nat])) = Inr [(1, 2), (2, 3), (2, 2)]
   \<and> split_pdf (Some [10, 20, 30 :: nat]) ''1-2,2-3,2'' ''d.pdf''
       = Inr [(''d_p1-2.pdf'', [10, 20]), (''d_p2-3.pdf'', [20, 30]), (''d_p2.pdf'', [20])]
   \<and> distinct (map fst [(''d_p1-2.pdf'', [10, 20 :: nat]), (''d_p2-3.pdf'', [20, 30]), (''d_p2.pdf'', [20])])
   \<and> distinct [(1, 2), (2, 3), (2 :: int, 2 :: int)]"
proof -
  have p: "parse_segments ''1-2,2-3,2'' (int (length [10, 20, 30 :: nat])) = Inr [(1, 2), (2, 3), (2, 2)]"
    by code_simp
  have s: "split_pdf (Some [10, 20, 30 :: nat]) ''1-2,2-3,2'' ''d.pdf''
       = Inr [(''d_p1-2.pdf'', [10, 20]), (''d_p2-3.pdf'', [20, 30]), (''d_p2.pdf'', [20])]"
    by code_simp
  have d: "distinct [(1, 2), (2, 3), (2 :: int, 2 :: int)]"
    by simp
  from split_pdf_names_distinct_iff [OF p s] p s d
  show ?thesis by simp
qed

text \<open>
  Claim C7 as stated fails on a repeated segment: the spec \<^verbatim>\<open>1,1\<close> succeeds and yields two
  outputs that are both named \<^verbatim>\<open>d_p1.pdf\<close>.
\<close>

theorem split_pdf_names_counterexample:
  "split_pdf (Some [10 :: nat]) ''1,1'' ''d.pdf'' = Inr [(''d_p1.pdf'', [10]), (''d_p1.pdf'', [10])]
   \<and> \<not> distinct (map fst [(''d_p1.pdf'', [10 :: nat]), (''d_p1.pdf'', [10])])"
proof -
  have "split_pdf (Some [10 :: nat]) ''1,1'' ''d.pdf'' = Inr [(''d_p1.pdf'', [10]), (''d_p1.pdf'', [10])]"
    by code_simp
  then show ?thesis by simp
qed

section \<open>Extracting and page access\<close>

lemma parse_segments_no_index_error: "parse_segments spec n \<noteq> Inl IndexError"
  by (simp add: parse_segments_def Let_def parse_loop_no_index_error)

lemma split_pdf_no_index_error: "split_pdf uploaded_file spec name \<noteq> Inl IndexError"
proof (cases uploaded_file)
  case None
  then show ?thesis by (simp add: split_pdf_def PdfReader_def)
next
  case (Some pages)
  show ?thesis
  proof (cases "parse_segments spec (int (length pages))")
    case (Inl e)
    with parse_segments_no_index_error [of spec "int (length pages)"] Some show ?thesis
      by (simp add: split_pdf_def PdfReader_def)
  next
    case (Inr segs)
    with Some show ?thesis
      by (simp add: split_pdf_parsed)
  qed
qed

lemma extract_step_valid:
  assumes "valid_page (int (length pages)) t"
  shows "extract_loop pages (int (length pages)) (t # ts) writer
           = extract_loop pages (int (length pages)) ts (writer @ [pages ! nat (dec_value t - 1)])"
proof -
  from assms have d: "decimal t" and lo: "1 \<le> dec_value t" and hi: "dec_value t \<le> int (length pages)"
    by (simp_all add: valid_page_def)
  from lo hi have "get_page pages (dec_value t - 1) = Inr (pages ! nat (dec_value t - 1))"
    by (simp add: get_page_in_range)
  with d lo hi show ?thesis
    by (simp add: decimal_isdigit py_int_decimal)
qed

lemma extract_loop_valid:
  "list_all (valid_page (int (length pages))) ts
    \<Longrightarrow> extract_loop pages (int (length pages)) ts writer
          = Inr (writer @ map (\<lambda>t. pages ! nat (dec_value t - 1)) ts)"
  by (induction ts arbitrary: writer) (simp_all add: extract_step_valid del: extract_loop.simps(2))

lemma extract_loop_prefix:
  "list_all (valid_page (int (length pages))) good
    \<Longrightarrow> extract_loop pages (int (length pages)) (good @ rest) writer
          = extract_loop pages (int (length pages)) rest
              (writer @ map (\<lambda>t. pages ! nat (dec_value t - 1)) good)"
  by (induction good arbitrary: writer) (simp_all add: extract_step_valid del: extract_loop.simps(2))

lemma extract_head_not_isdigit:
  "\<not> isdigit t \<Longrightarrow> extract_loop pages n (t # rest) writer = Inl (InvalidPageNumber t)"
  by simp

lemma extract_head_not_decimal:
  "\<not> decimal t \<Longrightarrow> extract_loop pages n (t # rest) writer = Inl (InvalidPageNumber t)
     \<or> extract_loop pages n (t # rest) writer = Inl (IntLiteral t)"
  by (auto simp: py_int_def decimal_def)

lemma extract_head_out_of_bounds:
  "decimal t \<Longrightarrow> dec_value t < 1 \<or> dec_value t > n
    \<Longrightarrow> extract_loop pages n (t # rest) writer = Inl (PageOutOfBounds (dec_value t) n)"
  by (auto simp: decimal_isdigit py_int_decimal)

lemma extract_loop_no_index_error:
  "extract_loop pages (int (length pages)) ts writer \<noteq> Inl IndexError"
proof (induction ts arbitrary: writer)
  case Nil
  then show ?case by simp
next
  case (Cons t ts)
  show ?case
  proof (cases "valid_page (int (length pages)) t")
    case True
    with Cons show ?thesis
      by (simp add: extract_step_valid del: extract_loop.simps(2))
  next
    case False
    then show ?thesis
      by (auto simp: valid_page_def py_int_def decimal_def split: sum.splits if_splits)
  qed
qed

lemma extract_loop_Inr:
  "extract_loop pages n ts writer = Inr out \<Longrightarrow> list_all (valid_page n) ts"
proof (induction ts arbitrary: writer)
  case Nil
  then show ?case by simp
next
  case (Cons t ts)
  from Cons.prems obtain p_int page where
    "isdigit t" "py_int t = Inr p_int" "\<not> (p_int < 1 \<or> p_int > n)"
    "extract_loop pages n ts (writer @ [page]) = Inr out"
    by (auto split: if_splits sum.splits)
  with Cons.IH [of "writer @ [page]"] py_int_Inr [of t p_int] show ?case
    by (simp add: valid_page_def)
qed

lemma extract_pages_no_index_error: "extract_pages uploaded_file pages_text \<noteq> Inl IndexError"
  by (cases uploaded_file) (simp_all add: extract_pages_def PdfReader_def extract_loop_no_index_error)

lemma reads_in_range_get_page: "reads_in_range get_page"
  by (simp add: reads_in_range_def get_page_in_range)

lemma reads_in_range_strict_page: "reads_in_range strict_page"
  by (simp add: reads_in_range_def strict_page_def)

lemma add_pages_with_in_range:
  assumes "reads_in_range page_at"
  shows "\<forall>p \<in> set ps. 0 \<le> p \<and> p < int (length pages)
    \<Longrightarrow> add_pages_with page_at pages ps writer = add_pages pages ps writer"
proof (induction ps arbitrary: writer)
  case Nil
  then show ?case by simp
next
  case (Cons p ps)
  then have "0 \<le> p" "p < int (length pages)"
    by simp_all
  with assms have "page_at pages p = Inr (pages ! nat p)" "get_page pages p = Inr (pages ! nat p)"
    by (simp_all add: reads_in_range_def get_page_in_range)
  with Cons show ?case
    by simp
qed

lemma split_loop_with_valid:
  assumes "reads_in_range page_at"
  shows "list_all (valid_segment (int (length pages))) segs
    \<Longrightarrow> split_loop_with page_at pages base segs created = split_loop pages base segs created"
proof (induction segs arbitrary: created)
  case Nil
  then show ?case by simp
next
  case (Cons seg segs)
  obtain start end' where seg: "seg = (start, end')"
    by (cases seg)
  with Cons.prems have "\<forall>p \<in> set [start - 1..end' - 1]. 0 \<le> p \<and> p < int (length pages)"
    by (auto simp: valid_segment_def)
  then have "add_pages_with page_at pages [start - 1..end' - 1] []
      = add_pages pages [start - 1..end' - 1] []"
    by (rule add_pages_with_in_range [OF assms])
  with Cons seg show ?case
    by (simp split: sum.splits)
qed

lemma split_pdf_with_in_range:
  assumes "reads_in_range page_at"
  shows "split_pdf_with page_at uploaded_file spec name = split_pdf uploaded_file spec name"
proof (cases uploaded_file)
  case None
  then show ?thesis
    by (simp add: split_pdf_with_def split_pdf_def PdfReader_def)
next
  case (Some pages)
  show ?thesis
  proof (cases "parse_segments spec (int (length pages))")
    case (Inl e)
    with Some show ?thesis
      by (simp add: split_pdf_with_def split_pdf_def PdfReader_def)
  next
    case (Inr segs)
    from split_loop_with_valid [OF assms parse_segments_valid [OF Inr]] Some Inr
    show ?thesis
      by (simp add: split_pdf_with_def split_pdf_def PdfReader_def)
  qed
qed

lemma extract_loop_with_in_range:
  assumes "reads_in_range page_at"
  shows "extract_loop_with page_at pages (int (length pages)) ts writer
           = extract_loop pages (int (length pages)) ts writer"
proof (induction ts arbitrary: writer)
  case Nil
  then show ?case by simp
next
  case (Cons t ts)
  have step: "page_at pages (p_int - 1) = get_page pages (p_int - 1)"
    if "\<not> (p_int < 1 \<or> p_int > int (length pages))" for p_int
    using that assms by (simp add: reads_in_range_def get_page_in_range)
  show ?case
    by (simp add: Cons.IH step split: sum.splits)
qed

lemma extract_pages_with_in_range:
  assumes "reads_in_range page_at"
  shows "extract_pages_with page_at uploaded_file pages_text = extract_pages uploaded_file pages_text"
  by (cases uploaded_file)
     (simp_all add: extract_pages_with_def extract_pages_def PdfReader_def
        extract_loop_with_in_range [OF assms])

lemma page_index_at: "page_index pages i = Inr i"
  by (simp add: page_index_def)

lemma add_pages_with_index: "add_pages_with page_index pages ps writer = Inr (writer @ ps)"
proof (induction ps arbitrary: writer)
  case Nil
  then show ?case by simp
next
  case (Cons p ps)
  from page_index_at [of pages p] Cons show ?case
    by simp
qed

lemma split_loop_with_index:
  "split_loop_with page_index pages base segs created
     = Inr (created @ map (\<lambda>seg. (out_name base (fst seg) (snd seg), [fst seg - 1..snd seg - 1])) segs)"
proof (induction segs arbitrary: created)
  case Nil
  then show ?case by simp
next
  case (Cons seg segs)
  obtain start end' where "seg = (start, end')"
    by (cases seg)
  with Cons show ?case
    by (simp add: add_pages_with_index)
qed

lemma extract_loop_with_index:
  "extract_loop_with page_index pages n ts writer = Inr reads
    \<Longrightarrow> \<forall>p \<in> set writer. 0 \<le> p \<and> p < n
    \<Longrightarrow> \<forall>p \<in> set reads. 0 \<le> p \<and> p < n"
proof (induction ts arbitrary: writer)
  case Nil
  then show ?case by simp
next
  case (Cons t ts)
  from Cons.prems(1) obtain p_int where ok: "py_int t = Inr p_int" "\<not> (p_int < 1 \<or> p_int > n)"
    by (auto split: if_splits sum.splits)
  with Cons.prems(1) page_index_at [of pages "p_int - 1"]
  have rest: "extract_loop_with page_index pages n ts (writer @ [p_int - 1]) = Inr reads"
    by (auto split: if_splits)
  from ok(2) Cons.prems(2) have "\<forall>p \<in> set (writer @ [p_int - 1]). 0 \<le> p \<and> p < n"
    by auto
  with Cons.IH [OF rest] show ?case
    by blast
qed

lemma split_pdf_with_index:
  assumes "parse_segments spec (int (length pages)) = Inr segments"
  shows "split_pdf_with page_index (Some pages) spec name
     = Inr (map (\<lambda>seg. (out_name (base_name name) (fst seg) (snd seg), [fst seg - 1..snd seg - 1]))
              segments)"
  using assms by (simp add: split_pdf_with_def PdfReader_def split_loop_with_index)

lemma extract_pages_with_index:
  assumes "extract_pages_with page_index (Some pages) pages_text = Inr reads"
  shows "\<forall>p \<in> set reads. 0 \<le> p \<and> p < int (length pages)"
  using assms extract_loop_with_index [of pages "int (length pages)" "page_tokens pages_text" "[]" reads]
  by (simp add: extract_pages_with_def PdfReader_def)

lemma extract_loop_with_index_valid:
  "list_all (valid_page n) ts
    \<Longrightarrow> extract_loop_with page_index pages n ts writer
          = Inr (writer @ map (\<lambda>t. dec_value t - 1) ts)"
proof (induction ts arbitrary: writer)
  case Nil
  then show ?case by simp
next
  case (Cons t ts)
  then have v: "valid_page n t" and rest: "list_all (valid_page n) ts"
    by simp_all
  from v have "decimal t" "1 \<le> dec_value t" "dec_value t \<le> n"
    by (simp_all add: valid_page_def)
  with rest Cons.IH [of "writer @ [dec_value t - 1]"] page_index_at [of pages "dec_value t - 1"]
  show ?case
    by (simp add: decimal_isdigit py_int_decimal)
qed

lemma extract_pages_with_index_success:
  assumes "extract_pages (Some pages) pages_text = Inr out"
  shows "list_all (valid_page (int (length pages))) (page_tokens pages_text)
    \<and> extract_pages_with page_index (Some pages) pages_text
        = Inr (map (\<lambda>t. dec_value t - 1) (page_tokens pages_text))"
proof -
  from assms have "list_all (valid_page (int (length pages))) (page_tokens pages_text)"
    using extract_loop_Inr [of pages "int (length pages)" "page_tokens pages_text" "[]" out]
    by (simp add: extract_pages_def PdfReader_def)
  then show ?thesis
    by (simp add: extract_pages_with_def PdfReader_def extract_loop_with_index_valid)
qed

text \<open>
  Claim C9. After validation every page access stays inside the document. Run with a
  read that fails on every index outside \<open>0 \<le> i < total\<close>, \<^verbatim>\<open>split_pdf\<close> and
  \<^verbatim>\<open>extract_pages\<close> return exactly what they return with the codec's read, and never the
  \<open>IndexError\<close> of a page access, on any input: no read leaves the document. Run with
  a read that returns its index, a split whose spec parsed returns for each segment the
  indices \<^verbatim>\<open>range(start - 1, end)\<close>, all within \<open>0 \<le> p < total\<close>, and an extract returns only
  indices within \<open>0 \<le> p < total\<close>; a successful extract has validated every token and has
  read index \<open>p_int - 1\<close> for each.
\<close>

theorem page_access_in_range:
  "split_pdf_with get_page (uploaded_file :: 'p upload) spec original_filename
     = split_pdf uploaded_file spec original_filename
   \<and> split_pdf_with strict_page uploaded_file spec original_filename
       = split_pdf uploaded_file spec original_filename
   \<and> split_pdf_with strict_page uploaded_file spec original_filename \<noteq> Inl IndexError
   \<and> split_pdf uploaded_file spec original_filename \<noteq> Inl IndexError
   \<and> (parse_segments spec (int (length (pages :: 'p list))) = Inr segments \<longrightarrow>
        split_pdf_with page_index (Some pages) spec original_filename
          = Inr (map (\<lambda>seg. (out_name (base_name original_filename) (fst seg) (snd seg),
                               [fst seg - 1..snd seg - 1]))
                   segments)
        \<and> (\<forall>seg \<in> set segments. \<forall>p \<in> set [fst seg - 1..snd seg - 1].
              0 \<le> p \<and> p < int (length pages)))
   \<and> extract_pages_with get_page uploaded_file pages_text = extract_pages uploaded_file pages_text
   \<and> extract_pages_with strict_page uploaded_file pages_text
       = extract_pages uploaded_file pages_text
   \<and> extract_pages_with strict_page uploaded_file pages_text \<noteq> Inl IndexError
   \<and> extract_pages uploaded_file pages_text \<noteq> Inl IndexError
   \<and> (extract_pages_with page_index (Some pages) pages_text = Inr reads \<longrightarrow>
        (\<forall>p \<in> set reads. 0 \<le> p \<and> p < int (length pages)))
   \<and> (extract_pages (Some pages) pages_text = Inr out \<longrightarrow>
        list_all (valid_page (int (length pages))) (page_tokens pages_text)
        \<and> extract_pages_with page_index (Some pages) pages_text
            = Inr (map (\<lambda>t. dec_value t - 1) (page_tokens pages_text)))"
proof -
  note s1 = split_pdf_with_in_range [OF reads_in_range_get_page, of uploaded_file spec original_filename]
  note s2 = split_pdf_with_in_range [OF reads_in_range_strict_page, of uploaded_file spec original_filename]
  note s3 = split_pdf_no_index_error [of uploaded_file spec original_filename]
  note e1 = extract_pages_with_in_range [OF reads_in_range_get_page, of uploaded_file pages_text]
  note e2 = extract_pages_with_in_range [OF reads_in_range_strict_page, of uploaded_file pages_text]
  note e3 = extract_pages_no_index_error [of uploaded_file pages_text]
  have split_trace: "split_pdf_with page_index (Some pages) spec original_filename
          = Inr (map (\<lambda>seg. (out_name (base_name original_filename) (fst seg) (snd seg),
                               [fst seg - 1..snd seg - 1]))
                   segments)
        \<and> (\<forall>seg \<in> set segments. \<forall>p \<in> set [fst seg - 1..snd seg - 1].
              0 \<le> p \<and> p < int (length pages))"
    if parsed: "parse_segments spec (int (length pages)) = Inr segments"
  proof
    show "split_pdf_with page_index (Some pages) spec original_filename
          = Inr (map (\<lambda>seg. (out_name (base_name original_filename) (fst seg) (snd seg),
                               [fst seg - 1..snd seg - 1]))
                   segments)"
      using parsed by (rule split_pdf_with_index)
    show "\<forall>seg \<in> set segments. \<forall>p \<in> set [fst seg - 1..snd seg - 1].
              0 \<le> p \<and> p < int (length pages)"
    proof (intro ballI)
      fix seg p
      assume "seg \<in> set segments" and p: "p \<in> set [fst seg - 1..snd seg - 1]"
      with parse_segments_valid [OF parsed] have "valid_segment (int (length pages)) seg"
        by (simp add: list_all_iff)
      with p show "0 \<le> p \<and> p < int (length pages)"
        by (simp add: valid_segment_def)
    qed
  qed
  have extract_trace: "\<forall>p \<in> set reads. 0 \<le> p \<and> p < int (length pages)"
    if "extract_pages_with page_index (Some pages) pages_text = Inr reads"
    using that by (rule extract_pages_with_index)
  have extract_success: "list_all (valid_page (int (length pages))) (page_tokens pages_text)
        \<and> extract_pages_with page_index (Some pages) pages_text
            = Inr (map (\<lambda>t. dec_value t - 1) (page_tokens pages_text))"
    if "extract_pages (Some pages) pages_text = Inr out"
    using that by (rule extract_pages_with_index_success)
  from s1 s2 s3 e1 e2 e3 split_trace extract_trace extract_success
  show ?thesis
    by (simp only: simp_thms) blast
qed

theorem page_access_in_range_witness:
  "parse_segments ''2-3'' (int (length [10, 20, 30 :: nat])) = Inr [(2, 3)]
   \<and> split_pdf_with page_index (Some [10, 20, 30 :: nat]) ''2-3'' ''doc.pdf''
       = Inr [(''doc_p2-3.pdf'', [1, 2])]
   \<and> split_pdf_with strict_page (Some [10, 20, 30 :: nat]) ''2-3'' ''doc.pdf''
       = Inr [(''doc_p2-3.pdf'', [20, 30])]
   \<and> extract_pages (Some [10, 20, 30 :: nat]) ''3,1'' = Inr [30, 10]
   \<and> extract_pages_with page_index (Some [10, 20, 30 :: nat]) ''3,1'' = Inr [2, 0]
   \<and> extract_pages_with strict_page (Some [10, 20, 30 :: nat]) ''3,1'' = Inr [30, 10]"
proof -
  have p: "parse_segments ''2-3'' (int (length [10, 20, 30 :: nat])) = Inr [(2, 3)]"
    by code_simp
  have s: "split_pdf (Some [10, 20, 30 :: nat]) ''2-3'' ''doc.pdf'' = Inr [(''doc_p2-3.pdf'', [20, 30])]"
    by code_simp
  have n: "out_name (base_name ''doc.pdf'') 2 3 = ''doc_p2-3.pdf''"
    by code_simp
  have e: "extract_pages (Some [10, 20, 30 :: nat]) ''3,1'' = Inr [30, 10]"
    by code_simp
  have t: "map (\<lambda>t. dec_value t - 1) (page_tokens ''3,1'') = [2, 0]"
    by code_simp
  from page_access_in_range [of "Some [10, 20, 30 :: nat]" "''2-3''" "''doc.pdf''"
      "[10, 20, 30 :: nat]" "[(2, 3)]" "''3,1''" "[2, 0]" "[30, 10]"] p s n e t
  show ?thesis
    by (simp add: upto_rec1)
qed

lemma extract_pages_fails_at:
  assumes "page_tokens pages_text = good @ t # rest"
    and "list_all (valid_page (int (length pages))) good"
  shows "extract_pages (Some pages) pages_text
           = extract_loop pages (int (length pages)) (t # rest)
               (map (\<lambda>t. pages ! nat (dec_value t - 1)) good)"
  using assms(1) extract_loop_prefix [OF assms(2), of "t # rest" "[]"]
  by (simp add: extract_pages_def PdfReader_def)

text \<open>
  What \<^verbatim>\<open>extract_pages\<close> does, token by token. When every token of the page list (the
  comma-separated pieces, stripped, empty ones dropped) is a decimal number within
  \<open>1..total\<close>, it returns the listed pages in the listed order, repeats included.
  Otherwise the first token that is not such a number decides the error: a token
  \<^verbatim>\<open>isdigit\<close> rejects is an invalid page number, a token that is not decimal fails with
  that error or with the error of \<^verbatim>\<open>int()\<close>, and a decimal token outside \<open>1..total\<close> is out
  of bounds.
\<close>

lemma extract_pages_by_token:
  "(list_all (valid_page (int (length (pages :: 'p list)))) (page_tokens pages_text) \<longrightarrow>
      extract_pages (Some pages) pages_text
        = Inr (map (\<lambda>t. pages ! nat (dec_value t - 1)) (page_tokens pages_text)))
   \<and> (page_tokens pages_text = good @ t # rest
        \<and> list_all (valid_page (int (length pages))) good \<longrightarrow>
        (\<not> isdigit t \<longrightarrow>
           extract_pages (Some pages) pages_text = Inl (InvalidPageNumber t))
        \<and> (\<not> decimal t \<longrightarrow>
           extract_pages (Some pages) pages_text = Inl (InvalidPageNumber t)
           \<or> extract_pages (Some pages) pages_text = Inl (IntLiteral t))
        \<and> (decimal t \<and> (dec_value t < 1 \<or> dec_value t > int (length pages)) \<longrightarrow>
           extract_pages (Some pages) pages_text
             = Inl (PageOutOfBounds (dec_value t) (int (length pages)))))
   \<and> extract_pages (Some [a :: 'p, b, c]) ''3,1,1'' = Inr [c, a, a]
   \<and> extract_pages (Some pages) ''3-5'' = Inl (InvalidPageNumber ''3-5'')"
proof -
  have ok: "extract_pages (Some ps) tx
        = Inr (map (\<lambda>t. ps ! nat (dec_value t - 1)) (page_tokens tx))"
    if "list_all (valid_page (int (length ps))) (page_tokens tx)" for ps :: "'p list" and tx
    using extract_loop_valid [OF that, of "[]"] by (simp add: extract_pages_def PdfReader_def)
  have bad: "(\<not> isdigit t \<longrightarrow>
           extract_pages (Some pages) pages_text = Inl (InvalidPageNumber t))
        \<and> (\<not> decimal t \<longrightarrow>
           extract_pages (Some pages) pages_text = Inl (InvalidPageNumber t)
           \<or> extract_pages (Some pages) pages_text = Inl (IntLiteral t))
        \<and> (decimal t \<and> (dec_value t < 1 \<or> dec_value t > int (length pages)) \<longrightarrow>
           extract_pages (Some pages) pages_text
             = Inl (PageOutOfBounds (dec_value t) (int (length pages))))"
    if "page_tokens pages_text = good @ t # rest"
      and "list_all (valid_page (int (length pages))) good"
    unfolding extract_pages_fails_at [OF that]
    using extract_head_not_isdigit extract_head_not_decimal extract_head_out_of_bounds
    by blast
  have tokens: "page_tokens ''3,1,1'' = [''3'', ''1'', ''1'']"
    by code_simp
  have v3: "dec_value ''3'' = 3" and v1: "dec_value ''1'' = 1"
    by code_simp+
  have d3: "decimal ''3''" and d1: "decimal ''1''"
    by code_simp+
  have "list_all (valid_page (int (length [a, b, c]))) (page_tokens ''3,1,1'')"
    by (simp add: tokens valid_page_def v3 v1 d3 d1)
  from ok [OF this] have ex: "extract_pages (Some [a, b, c]) ''3,1,1'' = Inr [c, a, a]"
    by (simp add: tokens v3 v1)
  have range_tokens: "page_tokens ''3-5'' = [] @ ''3-5'' # []"
    by code_simp
  have "\<not> isdigit ''3-5''"
    by code_simp
  then have range: "extract_pages (Some pages) ''3-5'' = Inl (InvalidPageNumber ''3-5'')"
    using extract_pages_fails_at [OF range_tokens, of pages] by simp
  from ok [of pages pages_text] bad ex range show ?thesis
    by blast
qed

text \<open>
  Claim C4 fails on a superscript digit. The page list made of the one character U+00B2
  passes the \<^verbatim>\<open>isdigit\<close> check that guards \<^verbatim>\<open>int()\<close>, and \<^verbatim>\<open>int()\<close> then raises its own
  \<^verbatim>\<open>ValueError\<close>: the token is not a number, yet the error is not the invalid page number
  error of \<^verbatim>\<open>extract_pages\<close>.
\<close>

theorem extract_pages_superscript_digit:
  "isdigit [CHR 0xB2] \<and> \<not> decimal [CHR 0xB2]
   \<and> page_tokens [CHR 0xB2] = [[CHR 0xB2]]
   \<and> extract_pages (Some [10, 20, 30 :: nat]) [CHR 0xB2] = Inl (IntLiteral [CHR 0xB2])
   \<and> extract_pages (Some [10, 20, 30 :: nat]) [CHR 0xB2] \<noteq> Inl (InvalidPageNumber [CHR 0xB2])"
proof -
  have "isdigit [CHR 0xB2]" "\<not> decimal [CHR 0xB2]" "page_tokens [CHR 0xB2] = [[CHR 0xB2]]"
    by code_simp+
  moreover have "extract_pages (Some [10, 20, 30 :: nat]) [CHR 0xB2] = Inl (IntLiteral [CHR 0xB2])"
    by code_simp
  ultimately show ?thesis
    by simp
qed

text \<open>
  Claim C6 fails on a page list without tokens. On \<^verbatim>\<open>","\<close> the guard of the extract
  button lets the input through, since it is not empty once stripped, and
  \<^verbatim>\<open>extract_pages\<close> raises nothing and returns a document with no pages; called with the
  empty page list, which the guard does reject, \<^verbatim>\<open>extract_pages\<close> does the same.
\<close>

theorem extract_pages_separator_only:
  "strip '','' \<noteq> [] \<and> page_tokens '','' = []
   \<and> extract_pages (Some [10, 20, 30 :: nat]) '','' = Inr []
   \<and> extract_button (Some [10, 20, 30 :: nat]) '','' = Inr []
   \<and> extract_pages (Some [10, 20, 30 :: nat]) '''' = Inr []
   \<and> extract_button (Some [10, 20, 30 :: nat]) '''' = Inl NoPageNumberEntered"
proof -
  have "strip '','' = '',''" "page_tokens '','' = []"
    by code_simp+
  moreover have "extract_pages (Some [10, 20, 30 :: nat]) '','' = Inr []"
    "extract_button (Some [10, 20, 30 :: nat]) '','' = Inr []"
    "extract_pages (Some [10, 20, 30 :: nat]) '''' = Inr []"
    "extract_button (Some [10, 20, 30 :: nat]) '''' = Inl NoPageNumberEntered"
    by code_simp+
  ultimately show ?thesis
    by simp
qed

section \<open>Whitespace in a range spec\<close>















end
